theory Spec2Isabelle
  imports Main
begin

section \<open>The block-by-timestamp search of simulate-past-state.js\<close>

text \<open>
  The development embeds \<^verbatim>\<open>findBlockByTimestamp\<close> (Example 4 of
  \<^verbatim>\<open>02-transaction-simulation/simulate-past-state.js\<close>):
  \<^verbatim>\<open>
  async function findBlockByTimestamp(targetTimestamp) {
    ...
    const latestBlock = await provider.getBlock('latest')

    // Binary search
    let left = 0
    let right = latestBlock.number
    let closestBlock = null

    while (left <= right) {
      const mid = Math.floor((left + right) / 2)
      const block = await provider.getBlock(mid)

      if (Math.abs(block.timestamp - targetTimestamp) < 15) {
        // Within 15 seconds is close enough
        closestBlock = block
        break
      }

      if (block.timestamp < targetTimestamp) {
        left = mid + 1
      } else {
        right = mid - 1
      }

      // Keep track of closest
      if (!closestBlock || Math.abs(block.timestamp - targetTimestamp)
            < Math.abs(closestBlock.timestamp - targetTimestamp)) {
        closestBlock = block
      }
    }
    ...
    return closestBlock
  }
  \<close>
  Block numbers and timestamps are integers (\<open>int\<close>): \<open>right\<close> can become \<open>-1\<close>, and
  \<open>Math.floor((left + right) / 2)\<close> is \<open>(left + right) div 2\<close>, which rounds down. (The
  source computes on JavaScript numbers, which are exact on integers below \<open>2^53\<close>.)

  The function is \<open>async\<close>: a rejected \<open>await\<close> or a thrown exception rejects the call,
  and no \<open>try\<close> surrounds the body. A rejected call is \<open>Inl\<close> of the failure, a resolved
  one \<open>Inr\<close> of the value. The module-level \<open>provider\<close> is a parameter of the model.

  The lines elided above write to the console. Two of them can throw:
  \<^verbatim>\<open>
  const targetDate = new Date(targetTimestamp * 1000)
  console.log(`Target date: ${targetDate.toISOString()}`)
  \<close>
  before the first request, and after the loop
  \<^verbatim>\<open>
  if (closestBlock) {
    const actualDate = new Date(closestBlock.timestamp * 1000)
    ...
    console.log(`  Date: ${actualDate.toISOString()}`)
    ...
  }
  \<close>
  \<open>toISOString\<close> throws a \<open>RangeError\<close> on a date beyond \<open>8.64e15\<close> milliseconds from the
  epoch. What is written to the console is not modelled; the exception is.
\<close>

subsection \<open>Blocks and the provider\<close>

text \<open>A block as the search reads it: its number and its timestamp.\<close>

record block =
  number :: int
  timestamp :: int

text \<open>
  The JSON-RPC provider is the one collaborator. \<open>latestNumber\<close> is the \<open>number\<close> of the
  block that \<open>provider.getBlock('latest')\<close> resolves to, \<open>timestampOf n\<close> is the
  \<open>timestamp\<close> of the block that \<open>provider.getBlock(n)\<close> resolves to; that block has the
  number \<open>n\<close> it was asked by. Either request may be rejected with an error of type \<open>'e\<close>.
\<close>

record 'e provider =
  latestNumber :: "'e + int"
  timestampOf :: "int \<Rightarrow> 'e + int"

definition getBlock :: "'e provider \<Rightarrow> int \<Rightarrow> 'e + block" where
  "getBlock p n =
     (case timestampOf p n of
        Inl e \<Rightarrow> Inl e
      | Inr t \<Rightarrow> Inr \<lparr>number = n, timestamp = t\<rparr>)"

subsection \<open>The loop\<close>

text \<open>The three locals of the loop.\<close>

record search_state =
  left :: int
  right :: int
  closestBlock :: "block option"

text \<open>The probe of an iteration: \<open>Math.floor((left + right) / 2)\<close>.\<close>

definition mid :: "search_state \<Rightarrow> int" where
  "mid s = (left s + right s) div 2"

text \<open>
  The test of the early exit: \<open>Math.abs(block.timestamp - targetTimestamp) < 15\<close>, under
  the comment \<open>Within 15 seconds is close enough\<close>. The window is the literal \<open>15\<close>; the
  function has no parameter for it.
\<close>

definition toleranceSeconds :: int where
  "toleranceSeconds = 15"

definition closeEnough :: "int \<Rightarrow> block \<Rightarrow> bool" where
  "closeEnough targetTimestamp b \<longleftrightarrow> \<bar>timestamp b - targetTimestamp\<bar> < toleranceSeconds"

text \<open>
  The rest of the body, run when the early exit is not taken: one bound moves past
  the probe \<open>m\<close>, then the closest block seen so far is replaced on a strict improvement.
\<close>

definition advance :: "int \<Rightarrow> int \<Rightarrow> block \<Rightarrow> search_state \<Rightarrow> search_state" where
  "advance targetTimestamp m b s =
     (let s1 = (if timestamp b < targetTimestamp then s\<lparr>left := m + 1\<rparr>
                else s\<lparr>right := m - 1\<rparr>)
      in case closestBlock s1 of
           None \<Rightarrow> s1\<lparr>closestBlock := Some b\<rparr>
         | Some c \<Rightarrow>
             if \<bar>timestamp b - targetTimestamp\<bar> < \<bar>timestamp c - targetTimestamp\<bar>
             then s1\<lparr>closestBlock := Some b\<rparr> else s1)"

text \<open>
  The loop, from given locals. Its effect on the provider is made a value: the first
  component lists the block numbers asked for by \<open>provider.getBlock(mid)\<close>, in order. The
  second is the error that ended the loop, or the locals as they are when the loop is
  left. After the \<open>break\<close> the locals still satisfy \<open>left \<le> right\<close>; otherwise the loop
  is left when \<open>left \<le> right\<close> fails.
\<close>

function searchLoop ::
  "'e provider \<Rightarrow> int \<Rightarrow> search_state \<Rightarrow> int list \<times> ('e + search_state)" where
  "searchLoop p targetTimestamp s =
     (if left s \<le> right s then
        (case getBlock p (mid s) of
           Inl e \<Rightarrow> ([mid s], Inl e)
         | Inr b \<Rightarrow>
             if closeEnough targetTimestamp b
             then ([mid s], Inr (s\<lparr>closestBlock := Some b\<rparr>))
             else (case searchLoop p targetTimestamp (advance targetTimestamp (mid s) b s) of
                     (cs, r) \<Rightarrow> (mid s # cs, r)))
      else ([], Inr s))"
  by pat_completeness auto
termination
proof (relation "measure (\<lambda>(p, t, s). nat (right s - left s + 1))")
  show "wf (measure (\<lambda>(p, t, s). nat (right s - left s + 1)))"
    by simp
next
  fix p :: "'e provider" and targetTimestamp :: int and s :: search_state and b :: block
  assume "left s \<le> right s"
  then show "((p, targetTimestamp, advance targetTimestamp (mid s) b s), (p, targetTimestamp, s))
             \<in> measure (\<lambda>(p, t, s). nat (right s - left s + 1))"
    by (auto simp: advance_def mid_def Let_def split: option.splits)
qed

declare searchLoop.simps [simp del]

subsection \<open>The function\<close>

text \<open>
  A date can be formatted when it lies within \<open>8.64e15\<close> milliseconds of the epoch; the
  source builds it from seconds, as \<open>new Date(seconds * 1000)\<close>.
\<close>

definition validDate :: "int \<Rightarrow> bool" where
  "validDate seconds \<longleftrightarrow> \<bar>seconds * 1000\<bar> \<le> 8640000000000000"

text \<open>
  A call fails with the \<open>RangeError\<close> of \<open>toISOString\<close> or with the error of a request that
  the provider rejected.
\<close>

datatype 'e failure = RangeError | Rejected 'e

text \<open>
  The lines after the loop: a block found is written to the console with its date, which
  can throw; the value returned is \<open>closestBlock\<close>, \<open>None\<close> for the \<open>null\<close> of the source.
\<close>

definition report :: "block option \<Rightarrow> 'e failure + block option" where
  "report closest =
     (case closest of
        None \<Rightarrow> Inr None
      | Some b \<Rightarrow> if validDate (timestamp b) then Inr (Some b) else Inl RangeError)"

text \<open>
  The function itself. The target's date is written first, then the head block is asked
  for and its number is the first upper bound. The list holds the requests of the loop; the
  one request for the head block comes before them.
\<close>

definition findBlockByTimestamp ::
  "'e provider \<Rightarrow> int \<Rightarrow> int list \<times> ('e failure + block option)" where
  "findBlockByTimestamp p targetTimestamp =
     (if \<not> validDate targetTimestamp then ([], Inl RangeError)
      else
        (case latestNumber p of
           Inl e \<Rightarrow> ([], Inl (Rejected e))
         | Inr n \<Rightarrow>
             (case searchLoop p targetTimestamp \<lparr>left = 0, right = n, closestBlock = None\<rparr> of
                (cs, Inl e) \<Rightarrow> (cs, Inl (Rejected e))
              | (cs, Inr s) \<Rightarrow> (cs, report (closestBlock s)))))"

text \<open>
  A call site may pass more arguments than the one parameter \<open>targetTimestamp\<close>; JavaScript
  drops them. With no argument the parameter is \<open>undefined\<close>, the date is invalid and
  \<open>toISOString\<close> throws.
\<close>

definition findBlockByTimestampCall ::
  "'e provider \<Rightarrow> int list \<Rightarrow> int list \<times> ('e failure + block option)" where
  "findBlockByTimestampCall p arguments =
     (case arguments of
        [] \<Rightarrow> ([], Inl RangeError)
      | targetTimestamp # _ \<Rightarrow> findBlockByTimestamp p targetTimestamp)"

section \<open>One iteration\<close>

lemma left_advance: "left (advance t m b s) = (if timestamp b < t then m + 1 else left s)"
  by (simp add: advance_def Let_def split: option.splits)

lemma right_advance: "right (advance t m b s) = (if timestamp b < t then right s else m - 1)"
  by (simp add: advance_def Let_def split: option.splits)

lemma closestBlock_advance:
  "closestBlock (advance t m b s) =
     (case closestBlock s of
        None \<Rightarrow> Some b
      | Some c \<Rightarrow> if \<bar>timestamp b - t\<bar> < \<bar>timestamp c - t\<bar> then Some b else Some c)"
  by (simp add: advance_def Let_def split: option.splits)

lemma mid_bounds: "left s \<le> right s \<Longrightarrow> left s \<le> mid s \<and> mid s \<le> right s"
  by (simp add: mid_def) linarith

lemma searchLoop_done: "right s < left s \<Longrightarrow> searchLoop p t s = ([], Inr s)"
  by (simp add: searchLoop.simps)

lemma searchLoop_throw:
  "left s \<le> right s \<Longrightarrow> timestampOf p (mid s) = Inl e \<Longrightarrow>
   searchLoop p t s = ([mid s], Inl e)"
  by (subst searchLoop.simps) (simp add: getBlock_def)

lemma searchLoop_break:
  "left s \<le> right s \<Longrightarrow> timestampOf p (mid s) = Inr u \<Longrightarrow> \<bar>u - t\<bar> < 15 \<Longrightarrow>
   searchLoop p t s =
     ([mid s], Inr (s\<lparr>closestBlock := Some \<lparr>number = mid s, timestamp = u\<rparr>\<rparr>))"
  by (subst searchLoop.simps) (simp add: getBlock_def closeEnough_def toleranceSeconds_def)

lemma searchLoop_continue:
  "left s \<le> right s \<Longrightarrow> timestampOf p (mid s) = Inr u \<Longrightarrow> \<not> \<bar>u - t\<bar> < 15 \<Longrightarrow>
   searchLoop p t s =
     (mid s # fst (searchLoop p t (advance t (mid s) \<lparr>number = mid s, timestamp = u\<rparr> s)),
      snd (searchLoop p t (advance t (mid s) \<lparr>number = mid s, timestamp = u\<rparr> s)))"
  by (subst searchLoop.simps)
     (simp add: getBlock_def closeEnough_def toleranceSeconds_def split: prod.splits)

text \<open>The four ways one evaluation of the loop condition and body can go.\<close>

lemma searchLoop_cases [consumes 1, case_names Done Throw Break Continue]:
  assumes "searchLoop p t s = (cs, r)"
  obtains
    (Done) "right s < left s" "cs = []" "r = Inr s"
  | (Throw) e where "left s \<le> right s" "timestampOf p (mid s) = Inl e"
      "cs = [mid s]" "r = Inl e"
  | (Break) u where "left s \<le> right s" "timestampOf p (mid s) = Inr u"
      "\<bar>u - t\<bar> < 15" "cs = [mid s]"
      "r = Inr (s\<lparr>closestBlock := Some \<lparr>number = mid s, timestamp = u\<rparr>\<rparr>)"
  | (Continue) u cs' where "left s \<le> right s" "timestampOf p (mid s) = Inr u"
      "\<not> \<bar>u - t\<bar> < 15" "cs = mid s # cs'"
      "searchLoop p t (advance t (mid s) \<lparr>number = mid s, timestamp = u\<rparr> s) = (cs', r)"
proof (cases "left s \<le> right s")
  case False
  then show ?thesis using assms that(1) by (simp add: searchLoop_done)
next
  case True
  show ?thesis
  proof (cases "timestampOf p (mid s)")
    case (Inl e)
    then show ?thesis using True assms that(2) by (simp add: searchLoop_throw)
  next
    case (Inr u)
    show ?thesis
    proof (cases "\<bar>u - t\<bar> < 15")
      case True
      then show ?thesis using \<open>left s \<le> right s\<close> Inr assms that(3) by (simp add: searchLoop_break)
    next
      case False
      then show ?thesis using \<open>left s \<le> right s\<close> Inr assms that(4) [of u "tl cs"]
        by (auto simp add: searchLoop_continue prod_eq_iff)
    qed
  qed
qed

text \<open>Induction along the iterations of the loop.\<close>

lemma searchLoop_induct [case_names step]:
  assumes step: "\<And>s. (\<And>u. left s \<le> right s \<Longrightarrow> timestampOf p (mid s) = Inr u \<Longrightarrow>
                        \<not> \<bar>u - t\<bar> < 15 \<Longrightarrow>
                        P (advance t (mid s) \<lparr>number = mid s, timestamp = u\<rparr> s)) \<Longrightarrow> P s"
  shows "P s"
proof (induction s rule: measure_induct_rule [where f = "\<lambda>s. nat (right s - left s + 1)"])
  case (less s)
  show ?case
  proof (rule step)
    fix u
    assume "left s \<le> right s"
    then have "nat (right (advance t (mid s) \<lparr>number = mid s, timestamp = u\<rparr> s)
                  - left (advance t (mid s) \<lparr>number = mid s, timestamp = u\<rparr> s) + 1)
               < nat (right s - left s + 1)"
      using mid_bounds [of s] by (simp add: left_advance right_advance)
    then show "P (advance t (mid s) \<lparr>number = mid s, timestamp = u\<rparr> s)"
      by (rule less)
  qed
qed

text \<open>
  The probes of a run lie in the window the run starts from, none is made twice, and
  there are at most as many as the window has blocks.
\<close>

lemma searchLoop_probes:
  "searchLoop p t s = (cs, r) \<Longrightarrow>
   set cs \<subseteq> {left s..right s} \<and> distinct cs \<and> int (length cs) \<le> max 0 (right s - left s + 1)"
proof (induction s arbitrary: cs r rule: searchLoop_induct [of p t])
  case (step s)
  from step.prems show ?case
  proof (cases rule: searchLoop_cases)
    case Done
    then show ?thesis by simp
  next
    case (Throw e)
    then show ?thesis using mid_bounds [of s] by simp
  next
    case (Break u)
    then show ?thesis using mid_bounds [of s] by simp
  next
    case (Continue u cs')
    let ?s' = "advance t (mid s) \<lparr>number = mid s, timestamp = u\<rparr> s"
    have ih: "set cs' \<subseteq> {left ?s'..right ?s'} \<and> distinct cs'
              \<and> int (length cs') \<le> max 0 (right ?s' - left ?s' + 1)"
      using step.IH Continue by blast
    have w: "left s \<le> left ?s'" "right ?s' \<le> right s" "mid s < left ?s' \<or> right ?s' < mid s"
      using mid_bounds [of s] Continue(1) by (simp_all add: left_advance right_advance)
    have "set cs \<subseteq> {left s..right s}"
      using ih w(1,2) mid_bounds [of s] Continue(1,4) by auto
    moreover have "distinct cs"
      using ih w(3) Continue(4) by auto
    moreover have "int (length cs) \<le> max 0 (right s - left s + 1)"
    proof -
      have "int (length cs') \<le> max 0 (right ?s' - left ?s' + 1)"
        using ih by simp
      moreover have "right ?s' - left ?s' + 1 \<le> right s - left s"
        using w mid_bounds [of s] Continue(1) by linarith
      ultimately show ?thesis
        using Continue(1,4) by simp
    qed
    ultimately show ?thesis by simp
  qed
qed

text \<open>The same equations on explicit locals, for running the loop on given inputs.\<close>

lemma advance_literal:
  "advance t m \<lparr>number = m, timestamp = u\<rparr> \<lparr>left = l, right = r, closestBlock = c\<rparr> =
     \<lparr>left = (if u < t then m + 1 else l),
      right = (if u < t then r else m - 1),
      closestBlock =
        (case c of None \<Rightarrow> Some \<lparr>number = m, timestamp = u\<rparr>
         | Some c' \<Rightarrow> if \<bar>u - t\<bar> < \<bar>timestamp c' - t\<bar>
             then Some \<lparr>number = m, timestamp = u\<rparr> else Some c')\<rparr>"
  by (cases c) (simp_all add: advance_def)

lemma searchLoop_literal_continue:
  "l \<le> r \<Longrightarrow> timestampOf p ((l + r) div 2) = Inr u \<Longrightarrow> \<not> \<bar>u - t\<bar> < 15 \<Longrightarrow>
   searchLoop p t \<lparr>left = l, right = r, closestBlock = c\<rparr> =
     (case searchLoop p t
        \<lparr>left = (if u < t then (l + r) div 2 + 1 else l),
         right = (if u < t then r else (l + r) div 2 - 1),
         closestBlock =
           (case c of None \<Rightarrow> Some \<lparr>number = (l + r) div 2, timestamp = u\<rparr>
            | Some c' \<Rightarrow> if \<bar>u - t\<bar> < \<bar>timestamp c' - t\<bar>
                then Some \<lparr>number = (l + r) div 2, timestamp = u\<rparr> else Some c')\<rparr> of
        (cs, res) \<Rightarrow> ((l + r) div 2 # cs, res))"
  using searchLoop_continue [of "\<lparr>left = l, right = r, closestBlock = c\<rparr>" p u t]
  by (simp add: mid_def advance_literal split: prod.splits)

section \<open>Whole runs of the loop\<close>

text \<open>A probe that the provider rejects is the last one, and its error is the result.\<close>

lemma searchLoop_failed_probe:
  "searchLoop p t s = (cs, r) \<Longrightarrow> i < length cs \<Longrightarrow> timestampOf p (cs ! i) = Inl e \<Longrightarrow>
   r = Inl e \<and> Suc i = length cs"
proof (induction s arbitrary: cs r i rule: searchLoop_induct [of p t])
  case (step s)
  from step.prems(1) show ?case
  proof (cases rule: searchLoop_cases)
    case Done
    then show ?thesis using step.prems(2) by simp
  next
    case (Throw e')
    then show ?thesis using step.prems(2,3) by simp
  next
    case (Break u)
    then show ?thesis using step.prems(2,3) by simp
  next
    case (Continue u cs')
    show ?thesis
    proof (cases i)
      case 0
      then show ?thesis using Continue(2,4) step.prems(3) by simp
    next
      case (Suc j)
      then have "j < length cs'" "timestampOf p (cs' ! j) = Inl e"
        using Continue(4) step.prems(2,3) by simp_all
      then have "r = Inl e \<and> Suc j = length cs'"
        using step.IH [OF Continue(1,2,3,5)] by blast
      then show ?thesis using Suc Continue(4) by simp
    qed
  qed
qed

lemma searchLoop_thrown:
  "searchLoop p t s = (cs, Inl e) \<Longrightarrow> cs \<noteq> [] \<and> timestampOf p (last cs) = Inl e"
proof (induction s arbitrary: cs rule: searchLoop_induct [of p t])
  case (step s)
  from step.prems show ?case
  proof (cases rule: searchLoop_cases)
    case (Continue u cs')
    then have "cs' \<noteq> [] \<and> timestampOf p (last cs') = Inl e"
      using step.IH by blast
    then show ?thesis using Continue(4) by simp
  qed simp_all
qed

text \<open>
  How the loop is left: with the window empty and no probe in the 15-second window, or by
  the \<open>break\<close> at the last probe, the only one in the window.
\<close>

lemma searchLoop_final:
  "searchLoop p t s = (cs, Inr s') \<Longrightarrow>
   left s \<le> left s' \<and> right s' \<le> right s \<and>
   (right s' < left s' \<and> (\<forall>n\<in>set cs. \<forall>u. timestampOf p n = Inr u \<longrightarrow> \<not> \<bar>u - t\<bar> < 15)
    \<or> left s' \<le> right s' \<and> cs \<noteq> [] \<and>
      (\<exists>u. timestampOf p (last cs) = Inr u \<and> \<bar>u - t\<bar> < 15 \<and>
           closestBlock s' = Some \<lparr>number = last cs, timestamp = u\<rparr>) \<and>
      (\<forall>n\<in>set (butlast cs). \<forall>u. timestampOf p n = Inr u \<longrightarrow> \<not> \<bar>u - t\<bar> < 15))"
proof (induction s arbitrary: cs rule: searchLoop_induct [of p t])
  case (step s)
  from step.prems show ?case
  proof (cases rule: searchLoop_cases)
    case Done
    then show ?thesis by auto
  next
    case (Throw e)
    then show ?thesis by simp
  next
    case (Break u)
    then show ?thesis by auto
  next
    case (Continue u cs')
    let ?s1 = "advance t (mid s) \<lparr>number = mid s, timestamp = u\<rparr> s"
    have w: "left s \<le> left ?s1" "right ?s1 \<le> right s"
      using mid_bounds [of s] Continue(1) by (simp_all add: left_advance right_advance)
    have ih: "left ?s1 \<le> left s' \<and> right s' \<le> right ?s1 \<and>
      (right s' < left s' \<and> (\<forall>n\<in>set cs'. \<forall>u. timestampOf p n = Inr u \<longrightarrow> \<not> \<bar>u - t\<bar> < 15)
       \<or> left s' \<le> right s' \<and> cs' \<noteq> [] \<and>
         (\<exists>u. timestampOf p (last cs') = Inr u \<and> \<bar>u - t\<bar> < 15 \<and>
           closestBlock s' = Some \<lparr>number = last cs', timestamp = u\<rparr>) \<and>
         (\<forall>n\<in>set (butlast cs'). \<forall>u. timestampOf p n = Inr u \<longrightarrow> \<not> \<bar>u - t\<bar> < 15))"
      using step.IH [OF Continue(1,2,3,5)] .
    from ih have b: "left s \<le> left s'" "right s' \<le> right s" using w by auto
    from ih consider
      (ex) "right s' < left s'" "\<forall>n\<in>set cs'. \<forall>u. timestampOf p n = Inr u \<longrightarrow> \<not> \<bar>u - t\<bar> < 15"
    | (br) "left s' \<le> right s'" "cs' \<noteq> []"
        "\<exists>u. timestampOf p (last cs') = Inr u \<and> \<bar>u - t\<bar> < 15 \<and>
           closestBlock s' = Some \<lparr>number = last cs', timestamp = u\<rparr>"
        "\<forall>n\<in>set (butlast cs'). \<forall>u. timestampOf p n = Inr u \<longrightarrow> \<not> \<bar>u - t\<bar> < 15"
      by blast
    then show ?thesis
    proof cases
      case ex
      then have "\<forall>n\<in>set cs. \<forall>u. timestampOf p n = Inr u \<longrightarrow> \<not> \<bar>u - t\<bar> < 15"
        using Continue(2,3,4) by auto
      then show ?thesis using ex(1) b by blast
    next
      case br
      have "last cs = last cs'" "butlast cs = mid s # butlast cs'"
        using br(2) Continue(4) by simp_all
      then show ?thesis using br b Continue(2,3,4) by auto
    qed
  qed
qed

text \<open>
  After \<open>advance\<close> there is a closest block, at least as close to the target as the
  block just probed and as the closest block before.
\<close>

lemma advance_closest:
  "\<exists>c'. closestBlock (advance t m b s) = Some c' \<and> \<bar>timestamp c' - t\<bar> \<le> \<bar>timestamp b - t\<bar> \<and>
        (\<forall>c. closestBlock s = Some c \<longrightarrow> \<bar>timestamp c' - t\<bar> \<le> \<bar>timestamp c - t\<bar>)"
  by (cases "closestBlock s") (simp_all add: closestBlock_advance)

text \<open>
  Each iteration that goes on shrinks the window strictly, from one side.
\<close>

lemma advance_shrinks:
  "left s \<le> right s \<Longrightarrow>
   left s \<le> left (advance t (mid s) b s) \<and> right (advance t (mid s) b s) \<le> right s \<and>
   right (advance t (mid s) b s) - left (advance t (mid s) b s) < right s - left s"
  using mid_bounds [of s] by (simp add: left_advance right_advance)

text \<open>
  A probe within the 15-second window is the last one, and its block is the closest
  block the loop is left with.
\<close>

lemma searchLoop_close_probe:
  "searchLoop p t s = (cs, r) \<Longrightarrow> i < length cs \<Longrightarrow> timestampOf p (cs ! i) = Inr u \<Longrightarrow>
   \<bar>u - t\<bar> < 15 \<Longrightarrow>
   Suc i = length cs \<and>
   (\<exists>s'. r = Inr s' \<and> closestBlock s' = Some \<lparr>number = cs ! i, timestamp = u\<rparr>)"
proof (induction s arbitrary: cs i rule: searchLoop_induct [of p t])
  case (step s)
  from step.prems(1) show ?case
  proof (cases rule: searchLoop_cases)
    case Done
    then show ?thesis using step.prems(2) by simp
  next
    case (Throw e')
    then show ?thesis using step.prems(2,3) by simp
  next
    case (Break u')
    then show ?thesis using step.prems(2,3) by simp
  next
    case (Continue u' cs')
    show ?thesis
    proof (cases i)
      case 0
      then show ?thesis using Continue(2,3,4) step.prems(3,4) by simp
    next
      case (Suc j)
      then have "j < length cs'" "timestampOf p (cs' ! j) = Inr u"
        using Continue(4) step.prems(2,3) by simp_all
      then have "Suc j = length cs' \<and>
          (\<exists>s'. r = Inr s' \<and> closestBlock s' = Some \<lparr>number = cs' ! j, timestamp = u\<rparr>)"
        using step.IH [OF Continue(1,2,3,5)] step.prems(4) by blast
      moreover have "cs ! i = cs' ! j" "length cs = Suc (length cs')"
        using Suc Continue(4) by simp_all
      ultimately show ?thesis using Suc by metis
    qed
  qed
qed

text \<open>
  When the provider answers for every block of the window, the loop ends without an error.
\<close>

lemma searchLoop_total:
  assumes tot: "\<forall>n. left s \<le> n \<and> n \<le> right s \<longrightarrow> (\<exists>u. timestampOf p n = Inr u)"
  shows "\<exists>cs s'. searchLoop p t s = (cs, Inr s')"
proof -
  obtain cs r where run: "searchLoop p t s = (cs, r)" by (cases "searchLoop p t s")
  show ?thesis
  proof (cases r)
    case (Inr s')
    then show ?thesis using run by blast
  next
    case (Inl e)
    then have run': "searchLoop p t s = (cs, Inl e)" using run by simp
    have ne: "cs \<noteq> []" and bad: "timestampOf p (last cs) = Inl e"
      using searchLoop_thrown [OF run'] by simp_all
    have "last cs \<in> set cs" using ne by simp
    then have "left s \<le> last cs \<and> last cs \<le> right s"
      using searchLoop_probes [OF run] by auto
    then have "\<exists>u. timestampOf p (last cs) = Inr u" using tot by blast
    then show ?thesis using bad by simp
  qed
qed

text \<open>
  The loop reads the provider inside the window only.
\<close>

lemma searchLoop_cong:
  "\<forall>n. left s \<le> n \<and> n \<le> right s \<longrightarrow> timestampOf p n = timestampOf q n \<Longrightarrow>
   searchLoop p t s = searchLoop q t s"
proof (induction s rule: searchLoop_induct [of p t])
  case (step s)
  show ?case
  proof (cases "left s \<le> right s")
    case False
    then show ?thesis by (simp add: searchLoop_done)
  next
    case True
    then have same: "timestampOf q (mid s) = timestampOf p (mid s)"
      using step.prems mid_bounds [of s] by simp
    show ?thesis
    proof (cases "timestampOf p (mid s)")
      case (Inl e)
      then show ?thesis using True same by (simp add: searchLoop_throw)
    next
      case (Inr u)
      show ?thesis
      proof (cases "\<bar>u - t\<bar> < 15")
        case True
        then show ?thesis using \<open>left s \<le> right s\<close> Inr same by (simp add: searchLoop_break)
      next
        case False
        let ?s1 = "advance t (mid s) \<lparr>number = mid s, timestamp = u\<rparr> s"
        have "left s \<le> left ?s1" "right ?s1 \<le> right s"
          using advance_shrinks [OF True] by simp_all
        then have "\<forall>n. left ?s1 \<le> n \<and> n \<le> right ?s1 \<longrightarrow> timestampOf p n = timestampOf q n"
          using step.prems by simp
        then have "searchLoop p t ?s1 = searchLoop q t ?s1"
          using step.IH [OF True Inr False] by simp
        then show ?thesis using True Inr same False by (simp add: searchLoop_continue)
      qed
    qed
  qed
qed

text \<open>
  The closest block the loop is left with is the one it started with or a block it probed.
\<close>

lemma searchLoop_closest_probed:
  "searchLoop p t s = (cs, Inr s') \<Longrightarrow>
   (cs = [] \<and> s' = s) \<or>
   (\<exists>b. closestBlock s' = Some b \<and>
        (closestBlock s = Some b \<or>
         number b \<in> set cs \<and> timestampOf p (number b) = Inr (timestamp b)))"
proof (induction s arbitrary: cs rule: searchLoop_induct [of p t])
  case (step s)
  from step.prems show ?case
  proof (cases rule: searchLoop_cases)
    case Done
    then show ?thesis by simp
  next
    case (Throw e)
    then show ?thesis by simp
  next
    case (Break u)
    then show ?thesis by auto
  next
    case (Continue u cs')
    let ?b = "\<lparr>number = mid s, timestamp = u\<rparr>"
    let ?s1 = "advance t (mid s) ?b s"
    have c1: "closestBlock ?s1 = Some ?b \<or> (\<exists>c. closestBlock s = Some c \<and> closestBlock ?s1 = Some c)"
      by (cases "closestBlock s") (simp_all add: closestBlock_advance)
    have ih: "(cs' = [] \<and> s' = ?s1) \<or>
       (\<exists>b. closestBlock s' = Some b \<and>
        (closestBlock ?s1 = Some b \<or>
         number b \<in> set cs' \<and> timestampOf p (number b) = Inr (timestamp b)))"
      using step.IH [OF Continue(1,2,3,5)] .
    then obtain b where b: "closestBlock s' = Some b"
      "closestBlock ?s1 = Some b \<or>
         number b \<in> set cs' \<and> timestampOf p (number b) = Inr (timestamp b)"
      using c1 by auto
    have "closestBlock s = Some b \<or>
         number b \<in> set cs \<and> timestampOf p (number b) = Inr (timestamp b)"
      using b(2) c1 Continue(2,4) by auto
    then show ?thesis using b(1) by blast
  qed
qed

text \<open>
  When the loop is left with the window empty, the closest block is the first of the
  blocks nearest to the target, among the block it started with and the probes in order.
\<close>

lemma searchLoop_exhausted_closest:
  "searchLoop p t s = (cs, Inr s') \<Longrightarrow> right s' < left s' \<Longrightarrow>
   (cs = [] \<and> s' = s) \<or>
   (\<exists>b. closestBlock s' = Some b \<and>
      (\<forall>n\<in>set cs. \<forall>u. timestampOf p n = Inr u \<longrightarrow> \<bar>timestamp b - t\<bar> \<le> \<bar>u - t\<bar>) \<and>
      (\<forall>c. closestBlock s = Some c \<longrightarrow> \<bar>timestamp b - t\<bar> \<le> \<bar>timestamp c - t\<bar>) \<and>
      (closestBlock s = Some b \<or>
       (\<exists>i<length cs. cs ! i = number b \<and> timestampOf p (cs ! i) = Inr (timestamp b) \<and>
          (\<forall>c. closestBlock s = Some c \<longrightarrow> \<bar>timestamp b - t\<bar> < \<bar>timestamp c - t\<bar>) \<and>
          (\<forall>j<i. \<forall>u. timestampOf p (cs ! j) = Inr u \<longrightarrow> \<bar>timestamp b - t\<bar> < \<bar>u - t\<bar>))))"
proof (induction s arbitrary: cs rule: searchLoop_induct [of p t])
  case (step s)
  from step.prems(1) show ?case
  proof (cases rule: searchLoop_cases)
    case Done
    then show ?thesis by simp
  next
    case (Throw e)
    then show ?thesis by simp
  next
    case (Break u)
    then show ?thesis using step.prems(2) by simp
  next
    case (Continue u cs')
    let ?m = "mid s"
    let ?b = "\<lparr>number = ?m, timestamp = u\<rparr>"
    let ?s1 = "advance t ?m ?b s"
    obtain c1 where c1: "closestBlock ?s1 = Some c1"
      "\<bar>timestamp c1 - t\<bar> \<le> \<bar>u - t\<bar>"
      "\<forall>c. closestBlock s = Some c \<longrightarrow> \<bar>timestamp c1 - t\<bar> \<le> \<bar>timestamp c - t\<bar>"
      using advance_closest [of t ?m ?b s] by auto
    have c1_cases: "c1 = ?b \<and> (\<forall>c. closestBlock s = Some c \<longrightarrow> \<bar>u - t\<bar> < \<bar>timestamp c - t\<bar>)
                    \<or> closestBlock s = Some c1"
      using c1(1) by (cases "closestBlock s") (simp_all add: closestBlock_advance split: if_splits)
    have "(cs' = [] \<and> s' = ?s1) \<or>
      (\<exists>b. closestBlock s' = Some b \<and>
        (\<forall>n\<in>set cs'. \<forall>u. timestampOf p n = Inr u \<longrightarrow> \<bar>timestamp b - t\<bar> \<le> \<bar>u - t\<bar>) \<and>
        (\<forall>c. closestBlock ?s1 = Some c \<longrightarrow> \<bar>timestamp b - t\<bar> \<le> \<bar>timestamp c - t\<bar>) \<and>
        (closestBlock ?s1 = Some b \<or>
         (\<exists>i<length cs'. cs' ! i = number b \<and> timestampOf p (cs' ! i) = Inr (timestamp b) \<and>
            (\<forall>c. closestBlock ?s1 = Some c \<longrightarrow> \<bar>timestamp b - t\<bar> < \<bar>timestamp c - t\<bar>) \<and>
            (\<forall>j<i. \<forall>u. timestampOf p (cs' ! j) = Inr u \<longrightarrow> \<bar>timestamp b - t\<bar> < \<bar>u - t\<bar>))))"
      using step.IH [OF Continue(1,2,3,5) step.prems(2)] .
    then obtain b where b: "closestBlock s' = Some b"
      and b_min: "\<forall>n\<in>set cs'. \<forall>u. timestampOf p n = Inr u \<longrightarrow> \<bar>timestamp b - t\<bar> \<le> \<bar>u - t\<bar>"
      and b_c1: "\<bar>timestamp b - t\<bar> \<le> \<bar>timestamp c1 - t\<bar>"
      and b_first: "b = c1 \<or>
         (\<exists>i<length cs'. cs' ! i = number b \<and> timestampOf p (cs' ! i) = Inr (timestamp b) \<and>
            \<bar>timestamp b - t\<bar> < \<bar>timestamp c1 - t\<bar> \<and>
            (\<forall>j<i. \<forall>u. timestampOf p (cs' ! j) = Inr u \<longrightarrow> \<bar>timestamp b - t\<bar> < \<bar>u - t\<bar>))"
      using c1(1) by auto
    have min: "\<forall>n\<in>set cs. \<forall>v. timestampOf p n = Inr v \<longrightarrow> \<bar>timestamp b - t\<bar> \<le> \<bar>v - t\<bar>"
      using b_min b_c1 c1(2) Continue(2,4) by auto
    have old: "\<forall>c. closestBlock s = Some c \<longrightarrow> \<bar>timestamp b - t\<bar> \<le> \<bar>timestamp c - t\<bar>"
      using b_c1 c1(3) by fastforce
    have first: "closestBlock s = Some b \<or>
       (\<exists>i<length cs. cs ! i = number b \<and> timestampOf p (cs ! i) = Inr (timestamp b) \<and>
          (\<forall>c. closestBlock s = Some c \<longrightarrow> \<bar>timestamp b - t\<bar> < \<bar>timestamp c - t\<bar>) \<and>
          (\<forall>j<i. \<forall>u. timestampOf p (cs ! j) = Inr u \<longrightarrow> \<bar>timestamp b - t\<bar> < \<bar>u - t\<bar>))"
      using b_first
    proof
      assume "b = c1"
      then consider "b = ?b" "\<forall>c. closestBlock s = Some c \<longrightarrow> \<bar>u - t\<bar> < \<bar>timestamp c - t\<bar>"
        | "closestBlock s = Some b"
        using c1_cases by blast
      then show ?thesis
      proof cases
        case 1
        have "0 < length cs \<and> cs ! 0 = number b \<and> timestampOf p (cs ! 0) = Inr (timestamp b) \<and>
          (\<forall>c. closestBlock s = Some c \<longrightarrow> \<bar>timestamp b - t\<bar> < \<bar>timestamp c - t\<bar>) \<and>
          (\<forall>j<0. \<forall>u. timestampOf p (cs ! j) = Inr u \<longrightarrow> \<bar>timestamp b - t\<bar> < \<bar>u - t\<bar>)"
          using 1 Continue(2,4) by simp
        then show ?thesis by blast
      next
        case 2
        then show ?thesis by simp
      qed
    next
      assume "\<exists>i<length cs'. cs' ! i = number b \<and> timestampOf p (cs' ! i) = Inr (timestamp b) \<and>
            \<bar>timestamp b - t\<bar> < \<bar>timestamp c1 - t\<bar> \<and>
            (\<forall>j<i. \<forall>u. timestampOf p (cs' ! j) = Inr u \<longrightarrow> \<bar>timestamp b - t\<bar> < \<bar>u - t\<bar>)"
      then obtain i where i: "i < length cs'" "cs' ! i = number b"
        "timestampOf p (cs' ! i) = Inr (timestamp b)"
        "\<bar>timestamp b - t\<bar> < \<bar>timestamp c1 - t\<bar>"
        "\<forall>j<i. \<forall>u. timestampOf p (cs' ! j) = Inr u \<longrightarrow> \<bar>timestamp b - t\<bar> < \<bar>u - t\<bar>"
        by blast
      have "Suc i < length cs" "cs ! Suc i = number b" "timestampOf p (cs ! Suc i) = Inr (timestamp b)"
        using i(1,2,3) Continue(4) by simp_all
      moreover have "\<forall>c. closestBlock s = Some c \<longrightarrow> \<bar>timestamp b - t\<bar> < \<bar>timestamp c - t\<bar>"
        using i(4) c1(3) by fastforce
      moreover have "\<forall>j<Suc i. \<forall>v. timestampOf p (cs ! j) = Inr v \<longrightarrow> \<bar>timestamp b - t\<bar> < \<bar>v - t\<bar>"
      proof (intro allI impI)
        fix j v
        assume j: "j < Suc i" and v: "timestampOf p (cs ! j) = Inr v"
        show "\<bar>timestamp b - t\<bar> < \<bar>v - t\<bar>"
        proof (cases j)
          case 0
          then have "v = u" using v Continue(2,4) by simp
          then show ?thesis using i(4) c1(2) by simp
        next
          case (Suc k)
          then have "k < i" "timestampOf p (cs' ! k) = Inr v"
            using j v Continue(4) by simp_all
          then show ?thesis using i(5) by blast
        qed
      qed
      ultimately show ?thesis by blast
    qed
    show ?thesis using b min old first by blast
  qed
qed

text \<open>
  On timestamps that do not decrease over \<open>lo..hi\<close>, every block outside the window is
  at least 15 seconds off the target and no closer to it than the closest block so far.
  So a run that empties the window has found a block nearest to the target among all of
  \<open>lo..hi\<close>, none of them within the 15-second window.
\<close>

lemma searchLoop_monotone:
  assumes tot: "\<forall>n. lo \<le> n \<and> n \<le> hi \<longrightarrow> timestampOf p n = Inr (f n)"
    and mono: "\<forall>i j. lo \<le> i \<and> i \<le> j \<and> j \<le> hi \<longrightarrow> f i \<le> f j"
  shows "lo \<le> left s \<Longrightarrow> right s \<le> hi \<Longrightarrow>
    (\<forall>n. lo \<le> n \<and> n \<le> hi \<and> (n < left s \<or> right s < n) \<longrightarrow>
       15 \<le> \<bar>f n - t\<bar> \<and> (\<exists>c. closestBlock s = Some c \<and> \<bar>timestamp c - t\<bar> \<le> \<bar>f n - t\<bar>)) \<Longrightarrow>
    \<exists>cs s'. searchLoop p t s = (cs, Inr s') \<and>
      (left s' \<le> right s' \<or>
       (\<forall>n. lo \<le> n \<and> n \<le> hi \<longrightarrow>
          15 \<le> \<bar>f n - t\<bar> \<and> (\<exists>c. closestBlock s' = Some c \<and> \<bar>timestamp c - t\<bar> \<le> \<bar>f n - t\<bar>)))"
proof (induction s rule: searchLoop_induct [of p t])
  case (step s)
  show ?case
  proof (cases "left s \<le> right s")
    case False
    then have "searchLoop p t s = ([], Inr s)" by (simp add: searchLoop_done)
    moreover have "\<forall>n. lo \<le> n \<and> n \<le> hi \<longrightarrow>
          15 \<le> \<bar>f n - t\<bar> \<and> (\<exists>c. closestBlock s = Some c \<and> \<bar>timestamp c - t\<bar> \<le> \<bar>f n - t\<bar>)"
      using step.prems(3) False by (metis le_less_trans linorder_not_less)
    ultimately show ?thesis by blast
  next
    case True
    let ?m = "mid s"
    have mb: "left s \<le> ?m" "?m \<le> right s" using mid_bounds [OF True] by simp_all
    then have fm: "timestampOf p ?m = Inr (f ?m)" using tot step.prems(1,2) by simp
    show ?thesis
    proof (cases "\<bar>f ?m - t\<bar> < 15")
      case True
      then show ?thesis using searchLoop_break [OF \<open>left s \<le> right s\<close> fm, of t] \<open>left s \<le> right s\<close>
        by simp
    next
      case far: False
      let ?b = "\<lparr>number = ?m, timestamp = f ?m\<rparr>"
      let ?s1 = "advance t ?m ?b s"
      obtain c' where c': "closestBlock ?s1 = Some c'" "\<bar>timestamp c' - t\<bar> \<le> \<bar>f ?m - t\<bar>"
        "\<forall>c. closestBlock s = Some c \<longrightarrow> \<bar>timestamp c' - t\<bar> \<le> \<bar>timestamp c - t\<bar>"
        using advance_closest [of t ?m ?b s] by auto
      have l1: "lo \<le> left ?s1" and r1: "right ?s1 \<le> hi"
        using step.prems(1,2) mb by (simp_all add: left_advance right_advance)
      have inv: "\<forall>n. lo \<le> n \<and> n \<le> hi \<and> (n < left ?s1 \<or> right ?s1 < n) \<longrightarrow>
         15 \<le> \<bar>f n - t\<bar> \<and> (\<exists>c. closestBlock ?s1 = Some c \<and> \<bar>timestamp c - t\<bar> \<le> \<bar>f n - t\<bar>)"
      proof (intro allI impI)
        fix n
        assume n: "lo \<le> n \<and> n \<le> hi \<and> (n < left ?s1 \<or> right ?s1 < n)"
        show "15 \<le> \<bar>f n - t\<bar> \<and> (\<exists>c. closestBlock ?s1 = Some c \<and> \<bar>timestamp c - t\<bar> \<le> \<bar>f n - t\<bar>)"
        proof (cases "n < left s \<or> right s < n")
          case True
          then obtain c where "15 \<le> \<bar>f n - t\<bar>" "closestBlock s = Some c"
            "\<bar>timestamp c - t\<bar> \<le> \<bar>f n - t\<bar>"
            using step.prems(3) n by blast
          then show ?thesis using c' by fastforce
        next
          case inside: False
          show ?thesis
          proof (cases "f ?m < t")
            case True
            then have "n \<le> ?m" using n inside by (simp add: left_advance right_advance)
            then have "f n \<le> f ?m" using mono n mb step.prems(2) by simp
            then have "\<bar>f ?m - t\<bar> \<le> \<bar>f n - t\<bar>" using True by linarith
            then show ?thesis using far c' by auto
          next
            case False
            then have "?m \<le> n" using n inside by (simp add: left_advance right_advance)
            then have "f ?m \<le> f n" using mono n mb step.prems(1) by simp
            then have "\<bar>f ?m - t\<bar> \<le> \<bar>f n - t\<bar>" using False by linarith
            then show ?thesis using far c' by auto
          qed
        qed
      qed
      from step.IH [OF True fm far l1 r1 inv]
      obtain cs s' where "searchLoop p t ?s1 = (cs, Inr s')"
        "left s' \<le> right s' \<or>
         (\<forall>n. lo \<le> n \<and> n \<le> hi \<longrightarrow>
          15 \<le> \<bar>f n - t\<bar> \<and> (\<exists>c. closestBlock s' = Some c \<and> \<bar>timestamp c - t\<bar> \<le> \<bar>f n - t\<bar>))"
        by blast
      then show ?thesis using searchLoop_continue [OF True fm far] by simp
    qed
  qed
qed

subsection \<open>From the loop to the function\<close>

lemma report_None [simp]: "report None = Inr None"
  by (simp add: report_def)

lemma report_Some [simp]:
  "report (Some b) = (if validDate (timestamp b) then Inr (Some b) else Inl RangeError)"
  by (simp add: report_def)

lemma report_Inr: "report c = Inr res \<longleftrightarrow> res = c \<and> (\<forall>b. c = Some b \<longrightarrow> validDate (timestamp b))"
  by (cases c) auto

lemma findBlockByTimestamp_invalid:
  "\<not> validDate t \<Longrightarrow> findBlockByTimestamp p t = ([], Inl RangeError)"
  by (simp add: findBlockByTimestamp_def)

lemma findBlockByTimestamp_no_head:
  "validDate t \<Longrightarrow> latestNumber p = Inl e \<Longrightarrow>
   findBlockByTimestamp p t = ([], Inl (Rejected e))"
  by (simp add: findBlockByTimestamp_def)

lemma findBlockByTimestamp_loop:
  "validDate t \<Longrightarrow> latestNumber p = Inr L \<Longrightarrow>
   searchLoop p t \<lparr>left = 0, right = L, closestBlock = None\<rparr> = (cs, r') \<Longrightarrow>
   findBlockByTimestamp p t =
     (cs, case r' of Inl e \<Rightarrow> Inl (Rejected e) | Inr s' \<Rightarrow> report (closestBlock s'))"
  by (simp add: findBlockByTimestamp_def split: sum.splits)

lemma findBlockByTimestamp_probed:
  assumes "findBlockByTimestamp p t = (cs, r)" and "cs \<noteq> []"
  shows "validDate t \<and>
    (\<exists>L r'. latestNumber p = Inr L \<and>
       searchLoop p t \<lparr>left = 0, right = L, closestBlock = None\<rparr> = (cs, r') \<and>
       r = (case r' of Inl e \<Rightarrow> Inl (Rejected e) | Inr s' \<Rightarrow> report (closestBlock s')))"
proof -
  have v: "validDate t"
  proof (rule ccontr)
    assume "\<not> validDate t"
    then show False using assms by (simp add: findBlockByTimestamp_invalid)
  qed
  then obtain L where L: "latestNumber p = Inr L"
    using assms by (cases "latestNumber p") (auto simp: findBlockByTimestamp_no_head)
  obtain cs' r' where run: "searchLoop p t \<lparr>left = 0, right = L, closestBlock = None\<rparr> = (cs', r')"
    by (cases "searchLoop p t \<lparr>left = 0, right = L, closestBlock = None\<rparr>")
  then show ?thesis
    using findBlockByTimestamp_loop [OF v L run] assms(1) v L by auto
qed

lemma findBlockByTimestamp_Inr_run:
  assumes "findBlockByTimestamp p t = (cs, Inr res)"
  shows "\<exists>L s'. latestNumber p = Inr L \<and>
     searchLoop p t \<lparr>left = 0, right = L, closestBlock = None\<rparr> = (cs, Inr s') \<and>
     res = closestBlock s' \<and> validDate t \<and> (\<forall>b. res = Some b \<longrightarrow> validDate (timestamp b))"
proof -
  have v: "validDate t"
  proof (rule ccontr)
    assume "\<not> validDate t"
    then show False using assms by (simp add: findBlockByTimestamp_invalid)
  qed
  then obtain L where L: "latestNumber p = Inr L"
    using assms by (cases "latestNumber p") (auto simp: findBlockByTimestamp_no_head)
  obtain cs' r' where run: "searchLoop p t \<lparr>left = 0, right = L, closestBlock = None\<rparr> = (cs', r')"
    by (cases "searchLoop p t \<lparr>left = 0, right = L, closestBlock = None\<rparr>")
  have eq: "cs' = cs" "(case r' of Inl e \<Rightarrow> Inl (Rejected e) | Inr s' \<Rightarrow> report (closestBlock s')) = Inr res"
    using findBlockByTimestamp_loop [OF v L run] assms by simp_all
  show ?thesis
  proof (cases r')
    case (Inl e)
    then show ?thesis using eq(2) by simp
  next
    case (Inr s')
    then have "res = closestBlock s' \<and> (\<forall>b. res = Some b \<longrightarrow> validDate (timestamp b))"
      using eq(2) by (simp add: report_Inr)
    then show ?thesis using run eq(1) Inr L v by blast
  qed
qed

text \<open>
  When the dates of the target and of every block of \<open>0..L\<close> can be formatted, a loop that
  ends without an error makes the call return its closest block.
\<close>

lemma findBlockByTimestamp_resolved:
  assumes vt: "validDate t" and head: "latestNumber p = Inr L"
    and run: "searchLoop p t \<lparr>left = 0, right = L, closestBlock = None\<rparr> = (cs, Inr s')"
    and vb: "\<forall>n u. 0 \<le> n \<and> n \<le> L \<and> timestampOf p n = Inr u \<longrightarrow> validDate u"
  shows "findBlockByTimestamp p t = (cs, Inr (closestBlock s'))"
proof (cases "closestBlock s'")
  case None
  then show ?thesis using findBlockByTimestamp_loop [OF vt head run] by simp
next
  case (Some b)
  then have "number b \<in> set cs \<and> timestampOf p (number b) = Inr (timestamp b)"
    using searchLoop_closest_probed [OF run] by auto
  moreover have "set cs \<subseteq> {0..L}"
    using searchLoop_probes [OF run] by simp
  ultimately have "0 \<le> number b \<and> number b \<le> L \<and> timestampOf p (number b) = Inr (timestamp b)"
    by auto
  then have "validDate (timestamp b)"
    using vb by blast
  then show ?thesis using findBlockByTimestamp_loop [OF vt head run] Some by simp
qed

section \<open>Properties of the search\<close>

text \<open>
  C1, amended. Let the timestamps of the blocks \<open>0..L\<close> not decrease, the provider answer
  for each of them, and the dates of the target and of these timestamps be in the range
  that can be formatted. If some block of \<open>0..L\<close> is strictly less than 15 seconds off the
  target, the loop is left by the early exit, still with \<open>left \<le> right\<close>, and the block
  returned is the last probe, lies in \<open>0..L\<close> and is strictly less than 15 seconds off
  the target. If some block is at most 15 seconds off the target, the block returned is at
  most 15 seconds off it; at exactly 15 seconds the early exit need not be taken.
\<close>

theorem monotone_chain_close_block_found:
  assumes head: "latestNumber p = Inr L"
    and tot: "\<forall>n. 0 \<le> n \<and> n \<le> L \<longrightarrow> timestampOf p n = Inr (f n)"
    and mono: "\<forall>i j. 0 \<le> i \<and> i \<le> j \<and> j \<le> L \<longrightarrow> f i \<le> f j"
    and n: "0 \<le> n" "n \<le> L"
    and vt: "validDate t"
    and vf: "\<forall>m. 0 \<le> m \<and> m \<le> L \<longrightarrow> validDate (f m)"
  shows "(\<bar>f n - t\<bar> < toleranceSeconds \<longrightarrow>
            (\<exists>cs s' b. searchLoop p t \<lparr>left = 0, right = L, closestBlock = None\<rparr> = (cs, Inr s') \<and>
               left s' \<le> right s' \<and> closestBlock s' = Some b \<and> number b = last cs \<and>
               0 \<le> number b \<and> number b \<le> L \<and> timestamp b = f (number b) \<and>
               \<bar>timestamp b - t\<bar> < toleranceSeconds \<and>
               findBlockByTimestamp p t = (cs, Inr (Some b))))
       \<and> (\<bar>f n - t\<bar> \<le> toleranceSeconds \<longrightarrow>
            (\<exists>cs b. findBlockByTimestamp p t = (cs, Inr (Some b)) \<and>
               \<bar>timestamp b - t\<bar> \<le> toleranceSeconds))"
proof -
  let ?s0 = "\<lparr>left = 0, right = L, closestBlock = None\<rparr>"
  have "\<exists>cs s'. searchLoop p t ?s0 = (cs, Inr s') \<and>
      (left s' \<le> right s' \<or>
       (\<forall>n. 0 \<le> n \<and> n \<le> L \<longrightarrow>
          15 \<le> \<bar>f n - t\<bar> \<and> (\<exists>c. closestBlock s' = Some c \<and> \<bar>timestamp c - t\<bar> \<le> \<bar>f n - t\<bar>)))"
    by (rule searchLoop_monotone [OF tot mono]) simp_all
  then obtain cs s' where run: "searchLoop p t ?s0 = (cs, Inr s')"
    and fin: "left s' \<le> right s' \<or>
       (\<forall>n. 0 \<le> n \<and> n \<le> L \<longrightarrow>
          15 \<le> \<bar>f n - t\<bar> \<and> (\<exists>c. closestBlock s' = Some c \<and> \<bar>timestamp c - t\<bar> \<le> \<bar>f n - t\<bar>))"
    by blast
  have "\<forall>m u. 0 \<le> m \<and> m \<le> L \<and> timestampOf p m = Inr u \<longrightarrow> validDate u"
    using tot vf by auto
  then have res: "findBlockByTimestamp p t = (cs, Inr (closestBlock s'))"
    using findBlockByTimestamp_resolved [OF vt head run] by blast
  have early: "\<exists>b. closestBlock s' = Some b \<and> number b = last cs \<and>
               0 \<le> number b \<and> number b \<le> L \<and> timestamp b = f (number b) \<and>
               \<bar>timestamp b - t\<bar> < 15" if "left s' \<le> right s'"
  proof -
    have "\<not> right s' < left s'" using that by simp
    then have "cs \<noteq> [] \<and> (\<exists>u. timestampOf p (last cs) = Inr u \<and> \<bar>u - t\<bar> < 15 \<and>
           closestBlock s' = Some \<lparr>number = last cs, timestamp = u\<rparr>)"
      using searchLoop_final [OF run] by blast
    then obtain u where u: "cs \<noteq> []" "timestampOf p (last cs) = Inr u" "\<bar>u - t\<bar> < 15"
      "closestBlock s' = Some \<lparr>number = last cs, timestamp = u\<rparr>"
      by blast
    have "last cs \<in> set cs" using u(1) by simp
    then have w: "0 \<le> last cs \<and> last cs \<le> L"
      using searchLoop_probes [OF run] by auto
    then have "u = f (last cs)" using tot u(2) by simp
    then show ?thesis using u w by simp
  qed
  show ?thesis
  proof (intro conjI impI)
    assume "\<bar>f n - t\<bar> < toleranceSeconds"
    then have "left s' \<le> right s'"
      using fin n by (auto simp: toleranceSeconds_def)
    then show "\<exists>cs s' b. searchLoop p t ?s0 = (cs, Inr s') \<and>
               left s' \<le> right s' \<and> closestBlock s' = Some b \<and> number b = last cs \<and>
               0 \<le> number b \<and> number b \<le> L \<and> timestamp b = f (number b) \<and>
               \<bar>timestamp b - t\<bar> < toleranceSeconds \<and>
               findBlockByTimestamp p t = (cs, Inr (Some b))"
      using early run res by (auto simp: toleranceSeconds_def)
  next
    assume near: "\<bar>f n - t\<bar> \<le> toleranceSeconds"
    show "\<exists>cs b. findBlockByTimestamp p t = (cs, Inr (Some b)) \<and>
               \<bar>timestamp b - t\<bar> \<le> toleranceSeconds"
    proof (cases "left s' \<le> right s'")
      case True
      then show ?thesis using early res by (fastforce simp: toleranceSeconds_def)
    next
      case False
      then obtain c where "closestBlock s' = Some c" "\<bar>timestamp c - t\<bar> \<le> \<bar>f n - t\<bar>"
        using fin n by blast
      then show ?thesis using near res by fastforce
    qed
  qed
qed

text \<open>
  On the series of 12-second blocks with head 1000 and the target 6100, block 508
  (timestamp 6096) is 4 seconds off: the hypotheses hold, and the search leaves by the
  early exit.
\<close>

theorem monotone_chain_close_block_found_witness:
  "(\<exists>cs s' b.
      searchLoop
        (\<lparr>latestNumber = Inr 1000, timestampOf = \<lambda>n. Inr (n * 12)\<rparr> :: 'e provider)
        6100 \<lparr>left = 0, right = 1000, closestBlock = None\<rparr> = (cs, Inr s') \<and>
      left s' \<le> right s' \<and> closestBlock s' = Some b \<and> number b = last cs \<and>
      0 \<le> number b \<and> number b \<le> 1000 \<and> timestamp b = number b * 12 \<and>
      \<bar>timestamp b - 6100\<bar> < toleranceSeconds \<and>
      findBlockByTimestamp
        (\<lparr>latestNumber = Inr 1000, timestampOf = \<lambda>n. Inr (n * 12)\<rparr> :: 'e provider)
        6100 = (cs, Inr (Some b)))
   \<and> (\<exists>cs b.
      findBlockByTimestamp
        (\<lparr>latestNumber = Inr 1000, timestampOf = \<lambda>n. Inr (n * 12)\<rparr> :: 'e provider)
        6100 = (cs, Inr (Some b)) \<and>
      \<bar>timestamp b - 6100\<bar> \<le> toleranceSeconds)"
  using monotone_chain_close_block_found
    [of "\<lparr>latestNumber = Inr 1000, timestampOf = \<lambda>n. Inr (n * 12)\<rparr> :: 'e provider"
        1000 "\<lambda>n. n * 12" 508 6100]
  by (simp add: toleranceSeconds_def validDate_def)

text \<open>
  The claim as the specification words it fails twice. With \<open>\<le> 15\<close> for the window: on
  30-second blocks with head 1 and the target 15, blocks 0 and 1 are both exactly 15
  seconds off the target, and the timestamps do not decrease; the loop probes both, takes
  no early exit and is left with \<open>right < left\<close>. For every target: with the target
  8640000000000, the last second whose date can be formatted, and a block 0 one second
  later, the loop takes the early exit, writing the block's date throws and no block is
  returned.
\<close>

theorem exhausted_with_blocks_at_distance_15:
  "timestampOf \<lparr>latestNumber = Inr 1, timestampOf = \<lambda>n. Inr (n * 30)\<rparr> 0 = Inr 0
   \<and> \<bar>0 - 15\<bar> \<le> toleranceSeconds
   \<and> searchLoop \<lparr>latestNumber = Inr 1, timestampOf = \<lambda>n. Inr (n * 30)\<rparr> 15
         \<lparr>left = 0, right = 1, closestBlock = None\<rparr>
       = ([0, 1], Inr \<lparr>left = 1, right = 0, closestBlock = Some \<lparr>number = 0, timestamp = 0\<rparr>\<rparr>)
   \<and> validDate 8640000000000
   \<and> \<bar>8640000000001 - 8640000000000\<bar> < toleranceSeconds
   \<and> findBlockByTimestamp \<lparr>latestNumber = Inr 0, timestampOf = \<lambda>n. Inr 8640000000001\<rparr>
         8640000000000
       = ([0], Inl RangeError)"
  by (simp add: toleranceSeconds_def searchLoop_literal_continue searchLoop_done
        findBlockByTimestamp_def validDate_def searchLoop_break mid_def)

text \<open>
  C2, amended. A probe whose timestamp is strictly less than 15 seconds off the target
  ends the loop at once: from any locals, the loop makes that one request, leaves both
  bounds as they are and keeps the probed block. In a whole call, such a probe is the last
  request; its block is the result when the date of its timestamp can be formatted, and
  otherwise the call fails with the \<open>RangeError\<close>.
\<close>

theorem close_probe_is_returned_at_once:
  "(left s \<le> right s \<and> timestampOf p (mid s) = Inr u \<and> \<bar>u - t\<bar> < toleranceSeconds \<longrightarrow>
      searchLoop p t s =
        ([mid s], Inr (s\<lparr>closestBlock := Some \<lparr>number = mid s, timestamp = u\<rparr>\<rparr>)))
   \<and> (findBlockByTimestamp p t = (cs, r) \<and> i < length cs \<and> timestampOf p (cs ! i) = Inr u \<and>
      \<bar>u - t\<bar> < toleranceSeconds \<longrightarrow>
      Suc i = length cs \<and>
      r = (if validDate u then Inr (Some \<lparr>number = cs ! i, timestamp = u\<rparr>)
           else Inl RangeError))"
proof (intro conjI impI)
  assume "left s \<le> right s \<and> timestampOf p (mid s) = Inr u \<and> \<bar>u - t\<bar> < toleranceSeconds"
  then show "searchLoop p t s =
        ([mid s], Inr (s\<lparr>closestBlock := Some \<lparr>number = mid s, timestamp = u\<rparr>\<rparr>))"
    by (simp add: searchLoop_break toleranceSeconds_def)
next
  assume a: "findBlockByTimestamp p t = (cs, r) \<and> i < length cs \<and>
    timestampOf p (cs ! i) = Inr u \<and> \<bar>u - t\<bar> < toleranceSeconds"
  then have "cs \<noteq> []" by auto
  then obtain L r' where L: "latestNumber p = Inr L"
    and r': "searchLoop p t \<lparr>left = 0, right = L, closestBlock = None\<rparr> = (cs, r')"
      "r = (case r' of Inl e \<Rightarrow> Inl (Rejected e) | Inr s' \<Rightarrow> report (closestBlock s'))"
    using a findBlockByTimestamp_probed [of p t cs r] by blast
  have "Suc i = length cs \<and>
     (\<exists>s'. r' = Inr s' \<and> closestBlock s' = Some \<lparr>number = cs ! i, timestamp = u\<rparr>)"
    using searchLoop_close_probe [OF r'(1), of i u] a by (simp add: toleranceSeconds_def)
  then show "Suc i = length cs"
    and "r = (if validDate u then Inr (Some \<lparr>number = cs ! i, timestamp = u\<rparr>)
           else Inl RangeError)"
    using r'(2) by auto
qed

text \<open>
  On the series of 12-second blocks with head 1000 and the target 6005, the first probe
  (block 500, timestamp 6000) is 5 seconds off and is returned at once.
\<close>

theorem close_probe_is_returned_at_once_witness:
  "searchLoop
    (\<lparr>latestNumber = Inr 1000, timestampOf = \<lambda>n. Inr (n * 12)\<rparr> :: 'e provider)
    6005 \<lparr>left = 0, right = 1000, closestBlock = None\<rparr>
     = ([500], Inr \<lparr>left = 0, right = 1000,
                     closestBlock = Some \<lparr>number = 500, timestamp = 6000\<rparr>\<rparr>)
   \<and> findBlockByTimestamp
     (\<lparr>latestNumber = Inr 1000, timestampOf = \<lambda>n. Inr (n * 12)\<rparr> :: 'e provider)
     6005 = ([500], Inr (Some \<lparr>number = 500, timestamp = 6000\<rparr>))"
proof -
  let ?P = "(\<lparr>latestNumber = Inr 1000, timestampOf = \<lambda>n. Inr (n * 12)\<rparr> :: 'e provider)"
  let ?s0 = "\<lparr>left = 0, right = 1000, closestBlock = None\<rparr>"
  have m: "mid ?s0 = 500" by (simp add: mid_def)
  obtain cs r where run: "findBlockByTimestamp ?P 6005 = (cs, r)"
    by (cases "findBlockByTimestamp ?P 6005")
  then have cs: "cs = [500]"
    by (simp add: findBlockByTimestamp_def validDate_def searchLoop_break mid_def)
  have "searchLoop ?P 6005 ?s0 =
       ([mid ?s0], Inr (?s0\<lparr>closestBlock := Some \<lparr>number = mid ?s0, timestamp = 6000\<rparr>\<rparr>))"
    and "Suc 0 = length cs \<and> r = Inr (Some \<lparr>number = cs ! 0, timestamp = 6000\<rparr>)"
    using close_probe_is_returned_at_once [of ?s0 ?P 6000 6005 cs r 0] run cs
    by (simp_all add: m toleranceSeconds_def validDate_def)
  then show ?thesis using run cs m by simp
qed

text \<open>
  The claim as the specification words it fails twice. With \<open>\<le> 15\<close> for the window: with
  head 2, timestamps \<open>n * 12 + 3\<close> and the target 0, the first probe is block 1, exactly
  15 seconds off the target; it is not returned, the search moves the upper bound, asks
  for block 0 and returns that one. For every probe within the window: with head 1,
  timestamps \<open>8640000000005 + n\<close> and the target 8640000000000, the first probe is block
  0, 5 seconds off the target, and the call does not return it but fails with the
  \<open>RangeError\<close>.
\<close>

theorem probe_at_distance_15_not_returned:
  "mid \<lparr>left = 0, right = 2, closestBlock = None\<rparr> = 1
   \<and> timestampOf \<lparr>latestNumber = Inr 2, timestampOf = \<lambda>n. Inr (n * 12 + 3)\<rparr> 1 = Inr 15
   \<and> \<bar>15 - 0\<bar> \<le> toleranceSeconds
   \<and> findBlockByTimestamp \<lparr>latestNumber = Inr 2, timestampOf = \<lambda>n. Inr (n * 12 + 3)\<rparr> 0
       = ([1, 0], Inr (Some \<lparr>number = 0, timestamp = 3\<rparr>))
   \<and> mid \<lparr>left = 0, right = 1, closestBlock = None\<rparr> = 0
   \<and> \<bar>8640000000005 - 8640000000000\<bar> < toleranceSeconds
   \<and> findBlockByTimestamp \<lparr>latestNumber = Inr 1, timestampOf = \<lambda>n. Inr (8640000000005 + n)\<rparr>
         8640000000000
       = ([0], Inl RangeError)"
  by (simp add: toleranceSeconds_def mid_def findBlockByTimestamp_def validDate_def
        searchLoop_literal_continue searchLoop_break)

text \<open>
  C3: a request that the provider rejects is the last request of the call, its error is
  the failure of the call, and no block is asked for twice. In particular, when the first
  probe is rejected it is the only request and the call fails with its error. The first
  probe is made, for block \<open>L div 2\<close>, whenever the target's date can be formatted and the
  head's number \<open>L\<close> is not negative.
\<close>

theorem failed_probe_is_propagated:
  "(findBlockByTimestamp p t = (cs, r) \<and> i < length cs \<and> timestampOf p (cs ! i) = Inl e \<longrightarrow>
      r = Inl (Rejected e) \<and> Suc i = length cs \<and> distinct cs)
   \<and> (findBlockByTimestamp p t = (cs, r) \<and> cs \<noteq> [] \<and> timestampOf p (hd cs) = Inl e \<longrightarrow>
      cs = [hd cs] \<and> r = Inl (Rejected e))
   \<and> (validDate t \<and> latestNumber p = Inr L \<and> 0 \<le> L \<and> timestampOf p (L div 2) = Inl e \<longrightarrow>
      findBlockByTimestamp p t = ([L div 2], Inl (Rejected e)))"
proof -
  have any: "r = Inl (Rejected e) \<and> Suc i = length cs \<and> distinct cs"
    if a: "findBlockByTimestamp p t = (cs, r)" "i < length cs" "timestampOf p (cs ! i) = Inl e"
    for cs r i e
  proof -
    have "cs \<noteq> []" using a(2) by auto
    then obtain L' r' where
      r': "searchLoop p t \<lparr>left = 0, right = L', closestBlock = None\<rparr> = (cs, r')"
        "r = (case r' of Inl e \<Rightarrow> Inl (Rejected e) | Inr s' \<Rightarrow> report (closestBlock s'))"
      using a(1) findBlockByTimestamp_probed [of p t cs r] by blast
    have "r' = Inl e \<and> Suc i = length cs"
      using searchLoop_failed_probe [OF r'(1), of i e] a(2,3) by simp
    moreover have "distinct cs"
      using searchLoop_probes [OF r'(1)] by simp
    ultimately show ?thesis using r'(2) by simp
  qed
  have first: "cs = [hd cs] \<and> r = Inl (Rejected e)"
    if b: "findBlockByTimestamp p t = (cs, r)" "cs \<noteq> []" "timestampOf p (hd cs) = Inl e"
  proof -
    have "0 < length cs" "cs ! 0 = hd cs" using b(2) by (simp_all add: hd_conv_nth)
    then have "r = Inl (Rejected e) \<and> Suc 0 = length cs"
      using any [of cs r 0 e] b(1,3) by simp
    then show ?thesis using b(2) by (cases cs) auto
  qed
  have made: "findBlockByTimestamp p t = ([L div 2], Inl (Rejected e))"
    if c: "validDate t" "latestNumber p = Inr L" "0 \<le> L" "timestampOf p (L div 2) = Inl e"
  proof -
    have "searchLoop p t \<lparr>left = 0, right = L, closestBlock = None\<rparr> = ([L div 2], Inl e)"
      using searchLoop_throw [of "\<lparr>left = 0, right = L, closestBlock = None\<rparr>" p e t] c(3,4)
      by (simp add: mid_def)
    then show ?thesis using findBlockByTimestamp_loop [OF c(1,2)] by simp
  qed
  show ?thesis using any first made by blast
qed

text \<open>
  A provider that rejects every request makes the call fail at the first probe; one that
  rejects block 249 only makes the call fail at its second probe.
\<close>

theorem failed_probe_is_propagated_witness:
  "findBlockByTimestamp \<lparr>latestNumber = Inr 1000, timestampOf = \<lambda>n. Inl ''timeout''\<rparr> 6000
     = ([500], Inl (Rejected ''timeout''))
   \<and> findBlockByTimestamp
       \<lparr>latestNumber = Inr 1000,
        timestampOf = \<lambda>n. if n = 249 then Inl ''timeout'' else Inr (n * 12)\<rparr> (- 100)
     = ([500, 249], Inl (Rejected ''timeout''))"
proof -
  let ?P1 = "\<lparr>latestNumber = Inr 1000, timestampOf = \<lambda>n. Inl ''timeout''\<rparr>"
  let ?P2 = "\<lparr>latestNumber = Inr 1000,
        timestampOf = \<lambda>n. if n = 249 then Inl ''timeout'' else Inr (n * 12)\<rparr>"
  have first: "findBlockByTimestamp ?P1 6000 = ([500], Inl (Rejected ''timeout''))"
    using failed_probe_is_propagated [of ?P1 6000 "[]" "Inr None" 0 "''timeout''" 1000]
    by (simp add: validDate_def)
  obtain cs r where run: "findBlockByTimestamp ?P2 (- 100) = (cs, r)"
    by (cases "findBlockByTimestamp ?P2 (- 100)")
  then have cs: "cs = [500, 249]"
    by (simp add: findBlockByTimestamp_def validDate_def searchLoop_literal_continue
          searchLoop_throw mid_def)
  have "r = Inl (Rejected ''timeout'')"
    using failed_probe_is_propagated [of ?P2 "- 100" cs r 1 "''timeout''" 0] run cs by simp
  then show ?thesis using first run cs by simp
qed

text \<open>
  C6, amended. When the head block's number is negative the call makes no request for a
  block and returns no block: it returns \<open>null\<close>, or fails with the \<open>RangeError\<close> when the
  target's date cannot be formatted. The function has no parameter for the 15-second
  window: any argument after the target is dropped, so a negative tolerance is neither
  read nor rejected.
\<close>

theorem negative_head_makes_no_probe:
  "(latestNumber p = Inr L \<and> L < 0 \<longrightarrow>
      findBlockByTimestamp p t = ([], if validDate t then Inr None else Inl RangeError))
   \<and> findBlockByTimestampCall p (t # surplus) = findBlockByTimestamp p t"
  by (simp add: findBlockByTimestamp_def findBlockByTimestampCall_def searchLoop_done)

text \<open>
  With the head block's number \<open>-1\<close> nothing is asked and \<open>null\<close> is returned.
\<close>

theorem negative_head_makes_no_probe_witness:
  "findBlockByTimestamp
     (\<lparr>latestNumber = Inr (- 1), timestampOf = \<lambda>n. Inr (n * 12)\<rparr> :: 'e provider) 6000
     = ([], Inr None)"
  using negative_head_makes_no_probe
    [of "\<lparr>latestNumber = Inr (- 1), timestampOf = \<lambda>n. Inr (n * 12)\<rparr> :: 'e provider"
        "- 1" 6000 "[]"]
  by (simp add: validDate_def)

text \<open>
  The claim as the specification words it, with a negative \<open>toleranceSeconds\<close> rejected
  before any request, fails: the function has no such parameter. A call
  \<open>findBlockByTimestamp(0, -5)\<close> on a chain with the one block 0, of timestamp 100, drops
  the \<open>-5\<close>, asks for block 0 and returns it.
\<close>

theorem surplus_negative_tolerance_is_ignored:
  "findBlockByTimestampCall \<lparr>latestNumber = Inr 0, timestampOf = \<lambda>n. Inr 100\<rparr> [0, - 5]
     = ([0], Inr (Some \<lparr>number = 0, timestamp = 100\<rparr>))"
  by (simp add: findBlockByTimestampCall_def findBlockByTimestamp_def validDate_def
        searchLoop_literal_continue searchLoop_done)

text \<open>
  C7: when the provider answers for every block of the window, the loop ends without an
  error after at most as many requests as the window has blocks; if no probe was within
  the 15-second window (no early exit), it ends with \<open>right < left\<close>. Every iteration
  that goes on moves one bound inwards, so the window shrinks strictly.
\<close>

theorem search_terminates_window_shrinks:
  assumes "\<forall>n. left s \<le> n \<and> n \<le> right s \<longrightarrow> (\<exists>u. timestampOf p n = Inr u)"
  shows "(\<exists>cs s'. searchLoop p t s = (cs, Inr s') \<and>
            int (length cs) \<le> max 0 (right s - left s + 1) \<and>
            ((\<forall>n\<in>set cs. \<forall>u. timestampOf p n = Inr u \<longrightarrow> \<not> \<bar>u - t\<bar> < toleranceSeconds)
               \<longrightarrow> right s' < left s'))
         \<and> (left s \<le> right s \<longrightarrow>
            (\<forall>b. left s \<le> left (advance t (mid s) b s) \<and>
                 right (advance t (mid s) b s) \<le> right s \<and>
                 right (advance t (mid s) b s) - left (advance t (mid s) b s)
                   < right s - left s))"
proof
  obtain cs s' where run: "searchLoop p t s = (cs, Inr s')"
    using searchLoop_total [OF assms] by blast
  have "int (length cs) \<le> max 0 (right s - left s + 1)"
    using searchLoop_probes [OF run] by simp
  moreover have "(\<forall>n\<in>set cs. \<forall>u. timestampOf p n = Inr u \<longrightarrow> \<not> \<bar>u - t\<bar> < toleranceSeconds)
               \<longrightarrow> right s' < left s'"
    using searchLoop_final [OF run] by (auto simp: toleranceSeconds_def)
  ultimately show "\<exists>cs s'. searchLoop p t s = (cs, Inr s') \<and>
            int (length cs) \<le> max 0 (right s - left s + 1) \<and>
            ((\<forall>n\<in>set cs. \<forall>u. timestampOf p n = Inr u \<longrightarrow> \<not> \<bar>u - t\<bar> < toleranceSeconds)
               \<longrightarrow> right s' < left s')"
    using run by blast
next
  show "left s \<le> right s \<longrightarrow>
            (\<forall>b. left s \<le> left (advance t (mid s) b s) \<and>
                 right (advance t (mid s) b s) \<le> right s \<and>
                 right (advance t (mid s) b s) - left (advance t (mid s) b s)
                   < right s - left s)"
    using advance_shrinks by blast
qed

text \<open>
  On the series of 12-second blocks with head 1000 and a target before genesis, the loop
  ends after at most 1001 requests with \<open>right < left\<close>.
\<close>

theorem search_terminates_window_shrinks_witness:
  "\<exists>cs s'. searchLoop
    (\<lparr>latestNumber = Inr 1000, timestampOf = \<lambda>n. Inr (n * 12)\<rparr> :: 'e provider)
    (- 100) \<lparr>left = 0, right = 1000, closestBlock = None\<rparr> = (cs, Inr s') \<and>
      int (length cs) \<le> 1001 \<and> right s' < left s'"
proof -
  let ?P = "(\<lparr>latestNumber = Inr 1000, timestampOf = \<lambda>n. Inr (n * 12)\<rparr> :: 'e provider)"
  let ?s0 = "\<lparr>left = 0, right = 1000, closestBlock = None\<rparr>"
  have "\<forall>n. left ?s0 \<le> n \<and> n \<le> right ?s0 \<longrightarrow> (\<exists>u. timestampOf ?P n = Inr u)" by simp
  from search_terminates_window_shrinks [OF this, of "- 100"]
  obtain cs s' where run: "searchLoop ?P (- 100) ?s0 = (cs, Inr s')"
    and len: "int (length cs) \<le> max 0 (right ?s0 - left ?s0 + 1)"
    and ex: "(\<forall>n\<in>set cs. \<forall>u. timestampOf ?P n = Inr u \<longrightarrow> \<not> \<bar>u - (- 100)\<bar> < toleranceSeconds)
               \<longrightarrow> right s' < left s'"
    by blast
  have "set cs \<subseteq> {0..1000}" using searchLoop_probes [OF run] by simp
  then have "\<forall>n\<in>set cs. \<forall>u. timestampOf ?P n = Inr u \<longrightarrow> \<not> \<bar>u - (- 100)\<bar> < toleranceSeconds"
    by (auto simp: toleranceSeconds_def)
  then have "right s' < left s'" using ex by blast
  then show ?thesis using run len by auto
qed

text \<open>
  C8: the result and the requests of a call are a function of the target, the head
  block's number and the provider's answers for the blocks \<open>0..L\<close>. Two calls with the same
  target on providers that agree there give the same result; so do two calls with the
  same target on the same provider.
\<close>

theorem result_depends_on_window_only:
  assumes "latestNumber p = latestNumber q"
    and "\<forall>L n. latestNumber p = Inr L \<and> 0 \<le> n \<and> n \<le> L \<longrightarrow> timestampOf p n = timestampOf q n"
  shows "findBlockByTimestamp p t = findBlockByTimestamp q t"
proof (cases "latestNumber p")
  case (Inl e)
  then show ?thesis using assms(1) by (simp add: findBlockByTimestamp_def)
next
  case (Inr L)
  then have "searchLoop p t \<lparr>left = 0, right = L, closestBlock = None\<rparr>
             = searchLoop q t \<lparr>left = 0, right = L, closestBlock = None\<rparr>"
    using assms(2) by (intro searchLoop_cong) simp
  then show ?thesis using Inr assms(1) by (simp add: findBlockByTimestamp_def)
qed

text \<open>
  A provider that rejects every block outside \<open>0..1000\<close> gives the same result as the
  series that answers everywhere.
\<close>

theorem result_depends_on_window_only_witness:
  "findBlockByTimestamp \<lparr>latestNumber = Inr 1000, timestampOf = \<lambda>n. Inr (n * 12)\<rparr> (- 100)
   = findBlockByTimestamp
       \<lparr>latestNumber = Inr 1000,
        timestampOf = \<lambda>n. if 0 \<le> n \<and> n \<le> 1000 then Inr (n * 12) else Inl ''unknown block''\<rparr>
       (- 100)"
  by (rule result_depends_on_window_only) simp_all

text \<open>
  C9, amended. When the head block's number \<open>L\<close> is not negative, the provider answers
  for every block of \<open>0..L\<close>, and the dates of the target and of the timestamps of these
  blocks can be formatted, the call returns a block, never \<open>null\<close>; the block lies in
  \<open>0..L\<close> and is one of the blocks probed, with the timestamp the provider gave. The
  first probe is block \<open>L div 2\<close>.
\<close>

theorem nonnegative_head_returns_probed_block:
  assumes "latestNumber p = Inr L" and "0 \<le> L"
    and "\<forall>n. 0 \<le> n \<and> n \<le> L \<longrightarrow> (\<exists>u. timestampOf p n = Inr u)"
    and vt: "validDate t"
    and vb: "\<forall>n u. 0 \<le> n \<and> n \<le> L \<and> timestampOf p n = Inr u \<longrightarrow> validDate u"
  shows "\<exists>cs b. findBlockByTimestamp p t = (cs, Inr (Some b)) \<and>
           0 \<le> number b \<and> number b \<le> L \<and>
           cs \<noteq> [] \<and> hd cs = L div 2 \<and>
           number b \<in> set cs \<and> timestampOf p (number b) = Inr (timestamp b)"
proof -
  let ?s0 = "\<lparr>left = 0, right = L, closestBlock = None\<rparr>"
  obtain cs s' where run: "searchLoop p t ?s0 = (cs, Inr s')"
    using searchLoop_total [of ?s0 p t] assms(3) by auto
  have first: "cs \<noteq> [] \<and> hd cs = L div 2"
    using run assms(2) by (cases rule: searchLoop_cases) (simp_all add: mid_def)
  then obtain b where b: "closestBlock s' = Some b" "number b \<in> set cs"
    "timestampOf p (number b) = Inr (timestamp b)"
    using searchLoop_closest_probed [OF run] by auto
  have "0 \<le> number b \<and> number b \<le> L"
    using searchLoop_probes [OF run] b(2) by auto
  moreover have "findBlockByTimestamp p t = (cs, Inr (Some b))"
    using findBlockByTimestamp_resolved [OF vt assms(1) run vb] b(1) by simp
  ultimately show ?thesis using first b by blast
qed

text \<open>
  On the series of 12-second blocks with head 1000, a target after the head still gives a
  block of \<open>0..1000\<close>.
\<close>

theorem nonnegative_head_returns_probed_block_witness:
  "\<exists>cs b. findBlockByTimestamp
    (\<lparr>latestNumber = Inr 1000, timestampOf = \<lambda>n. Inr (n * 12)\<rparr> :: 'e provider)
    999999 = (cs, Inr (Some b)) \<and>
     0 \<le> number b \<and> number b \<le> 1000 \<and> cs \<noteq> [] \<and> hd cs = 1000 div 2 \<and> number b \<in> set cs \<and>
     timestampOf
       (\<lparr>latestNumber = Inr 1000, timestampOf = \<lambda>n. Inr (n * 12)\<rparr> :: 'e provider)
       (number b) = Inr (timestamp b)"
  by (rule nonnegative_head_returns_probed_block) (auto simp: validDate_def)

text \<open>
  The claim as the specification words it, for every target and every answering provider,
  fails where a date cannot be formatted. With head 0, a block 0 of timestamp
  9000000000000 and the target 0, the loop probes block 0, keeps it as the closest and
  ends; writing its date throws and no block is returned. With the target 9000000000000
  itself on the series of 12-second blocks, writing the target's date throws before any
  request.
\<close>

theorem date_out_of_range_returns_no_block:
  "findBlockByTimestamp \<lparr>latestNumber = Inr 0, timestampOf = \<lambda>n. Inr 9000000000000\<rparr> 0
     = ([0], Inl RangeError)
   \<and> findBlockByTimestamp \<lparr>latestNumber = Inr 1000, timestampOf = \<lambda>n. Inr (n * 12)\<rparr>
       9000000000000
     = ([], Inl RangeError)"
  by (simp add: findBlockByTimestamp_def validDate_def searchLoop_literal_continue
        searchLoop_done)

text \<open>
  C10: let a call end without an error and with no probe within the 15-second window
  (the search ran to exhaustion). Then every probe was answered, the result is \<open>null\<close>
  only if nothing was probed, and a block returned is one of the blocks probed, is at
  least as close to the target as every probed block, and every block probed before it
  is strictly farther from the target.
\<close>

theorem exhausted_search_returns_first_closest_probe:
  assumes "findBlockByTimestamp p t = (cs, Inr res)"
    and "\<forall>n\<in>set cs. \<forall>u. timestampOf p n = Inr u \<longrightarrow> \<not> \<bar>u - t\<bar> < toleranceSeconds"
  shows "(res = None \<longleftrightarrow> cs = []) \<and>
         (\<forall>n\<in>set cs. \<exists>u. timestampOf p n = Inr u) \<and>
         (\<forall>b. res = Some b \<longrightarrow>
            (\<exists>i<length cs. cs ! i = number b \<and> timestampOf p (cs ! i) = Inr (timestamp b) \<and>
               (\<forall>n\<in>set cs. \<forall>u. timestampOf p n = Inr u \<longrightarrow> \<bar>timestamp b - t\<bar> \<le> \<bar>u - t\<bar>) \<and>
               (\<forall>j<i. \<forall>u. timestampOf p (cs ! j) = Inr u \<longrightarrow> \<bar>timestamp b - t\<bar> < \<bar>u - t\<bar>)))"
proof -
  obtain L s' where L: "latestNumber p = Inr L"
    and run: "searchLoop p t \<lparr>left = 0, right = L, closestBlock = None\<rparr> = (cs, Inr s')"
    and res: "res = closestBlock s'"
    using findBlockByTimestamp_Inr_run [OF assms(1)] by blast
  have fetched: "\<forall>n\<in>set cs. \<exists>u. timestampOf p n = Inr u"
  proof
    fix n assume "n \<in> set cs"
    then obtain i where i: "i < length cs" "cs ! i = n" by (auto simp: in_set_conv_nth)
    show "\<exists>u. timestampOf p n = Inr u"
    proof (cases "timestampOf p n")
      case (Inl e)
      then show ?thesis using searchLoop_failed_probe [OF run, of i e] i by simp
    next
      case (Inr u)
      then show ?thesis by blast
    qed
  qed
  have exhausted: "right s' < left s'"
  proof (rule ccontr)
    assume "\<not> right s' < left s'"
    then have "cs \<noteq> [] \<and> (\<exists>u. timestampOf p (last cs) = Inr u \<and> \<bar>u - t\<bar> < 15)"
      using searchLoop_final [OF run] by auto
    then show False using assms(2) last_in_set [of cs] by (auto simp: toleranceSeconds_def)
  qed
  have best: "(cs = [] \<and> s' = \<lparr>left = 0, right = L, closestBlock = None\<rparr>) \<or>
   (\<exists>b. closestBlock s' = Some b \<and>
      (\<forall>n\<in>set cs. \<forall>u. timestampOf p n = Inr u \<longrightarrow> \<bar>timestamp b - t\<bar> \<le> \<bar>u - t\<bar>) \<and>
      (\<exists>i<length cs. cs ! i = number b \<and> timestampOf p (cs ! i) = Inr (timestamp b) \<and>
          (\<forall>j<i. \<forall>u. timestampOf p (cs ! j) = Inr u \<longrightarrow> \<bar>timestamp b - t\<bar> < \<bar>u - t\<bar>)))"
    using searchLoop_exhausted_closest [OF run exhausted] by simp
  have "res = None \<longleftrightarrow> cs = []"
    using best res by auto
  moreover have "\<forall>b. res = Some b \<longrightarrow>
            (\<exists>i<length cs. cs ! i = number b \<and> timestampOf p (cs ! i) = Inr (timestamp b) \<and>
               (\<forall>n\<in>set cs. \<forall>u. timestampOf p n = Inr u \<longrightarrow> \<bar>timestamp b - t\<bar> \<le> \<bar>u - t\<bar>) \<and>
               (\<forall>j<i. \<forall>u. timestampOf p (cs ! j) = Inr u \<longrightarrow> \<bar>timestamp b - t\<bar> < \<bar>u - t\<bar>))"
    using best res by auto
  ultimately show ?thesis using fetched by blast
qed

text \<open>
  On 40-second blocks with head 3 and the target 60, the probes are blocks 1 and 2, both
  20 seconds off the target; block 1, probed first, is returned.
\<close>

theorem exhausted_search_returns_first_closest_probe_witness:
  "findBlockByTimestamp
    (\<lparr>latestNumber = Inr 3, timestampOf = \<lambda>n. Inr (n * 40)\<rparr> :: 'e provider)
    60 = ([1, 2], Inr (Some \<lparr>number = 1, timestamp = 40\<rparr>))
   \<and> (\<exists>i<length [1, 2 :: int]. [1, 2] ! i = (1 :: int) \<and>
        timestampOf
          (\<lparr>latestNumber = Inr 3, timestampOf = \<lambda>n. Inr (n * 40)\<rparr> :: 'e provider)
          ([1, 2] ! i) = Inr 40 \<and>
        (\<forall>n\<in>set [1, 2]. \<forall>u. timestampOf
          (\<lparr>latestNumber = Inr 3, timestampOf = \<lambda>n. Inr (n * 40)\<rparr> :: 'e provider)
          n = Inr u \<longrightarrow> \<bar>40 - 60\<bar> \<le> \<bar>u - 60\<bar>) \<and>
        (\<forall>j<i. \<forall>u. timestampOf
          (\<lparr>latestNumber = Inr 3, timestampOf = \<lambda>n. Inr (n * 40)\<rparr> :: 'e provider)
          ([1, 2] ! j) = Inr u \<longrightarrow> \<bar>40 - 60\<bar> < \<bar>u - 60\<bar>))"
proof -
  let ?P = "(\<lparr>latestNumber = Inr 3, timestampOf = \<lambda>n. Inr (n * 40)\<rparr> :: 'e provider)"
  let ?b = "\<lparr>number = 1, timestamp = 40\<rparr>"
  have run: "findBlockByTimestamp ?P 60 = ([1, 2], Inr (Some ?b))"
    by (simp add: findBlockByTimestamp_def validDate_def searchLoop_literal_continue
        searchLoop_done)
  have far: "\<forall>n\<in>set [1, 2]. \<forall>u. timestampOf ?P n = Inr u \<longrightarrow> \<not> \<bar>u - 60\<bar> < toleranceSeconds"
    by (simp add: toleranceSeconds_def)
  have "\<forall>b. Some ?b = Some b \<longrightarrow>
      (\<exists>i<length [1, 2 :: int]. [1, 2] ! i = number b \<and>
        timestampOf ?P ([1, 2] ! i) = Inr (timestamp b) \<and>
        (\<forall>n\<in>set [1, 2]. \<forall>u. timestampOf ?P n = Inr u \<longrightarrow> \<bar>timestamp b - 60\<bar> \<le> \<bar>u - 60\<bar>) \<and>
        (\<forall>j<i. \<forall>u. timestampOf ?P ([1, 2] ! j) = Inr u \<longrightarrow> \<bar>timestamp b - 60\<bar> < \<bar>u - 60\<bar>))"
    using exhausted_search_returns_first_closest_probe [OF run far] by (elim conjE)
  then have "\<exists>i<length [1, 2 :: int]. [1, 2] ! i = number ?b \<and>
        timestampOf ?P ([1, 2] ! i) = Inr (timestamp ?b) \<and>
        (\<forall>n\<in>set [1, 2]. \<forall>u. timestampOf ?P n = Inr u \<longrightarrow> \<bar>timestamp ?b - 60\<bar> \<le> \<bar>u - 60\<bar>) \<and>
        (\<forall>j<i. \<forall>u. timestampOf ?P ([1, 2] ! j) = Inr u \<longrightarrow> \<bar>timestamp ?b - 60\<bar> < \<bar>u - 60\<bar>)"
    by (rule allE [where x = ?b]) (erule impE, rule refl, assumption)
  then show ?thesis using run by simp
qed

section \<open>The synthetic series of 12-second blocks\<close>

text \<open>
  C4: on the series \<open>timestamp(n) = n * 12\<close> with head block 1000, a target before
  genesis (\<open>-100\<close>) makes the search return block 0, and a target after the head
  (\<open>999999\<close>) makes it return block 1000. The probes are listed as well.
\<close>

theorem series_outside_range:
  "findBlockByTimestamp \<lparr>latestNumber = Inr 1000, timestampOf = \<lambda>n. Inr (n * 12)\<rparr> (- 100)
     = ([500, 249, 124, 61, 30, 14, 6, 2, 0], Inr (Some \<lparr>number = 0, timestamp = 0\<rparr>))
   \<and> findBlockByTimestamp \<lparr>latestNumber = Inr 1000, timestampOf = \<lambda>n. Inr (n * 12)\<rparr> 999999
     = ([500, 750, 875, 938, 969, 985, 993, 997, 999, 1000],
        Inr (Some \<lparr>number = 1000, timestamp = 12000\<rparr>))"
  by (simp add: findBlockByTimestamp_def validDate_def searchLoop_literal_continue
        searchLoop_done)

text \<open>
  C5: on the same series the search returns block 500 for the target 6000 (its exact
  timestamp) and for the target 6005 (5 seconds off), each time from the first probe.
\<close>

theorem series_exact_and_near:
  "findBlockByTimestamp \<lparr>latestNumber = Inr 1000, timestampOf = \<lambda>n. Inr (n * 12)\<rparr> 6000
     = ([500], Inr (Some \<lparr>number = 500, timestamp = 6000\<rparr>))
   \<and> findBlockByTimestamp \<lparr>latestNumber = Inr 1000, timestampOf = \<lambda>n. Inr (n * 12)\<rparr> 6005
     = ([500], Inr (Some \<lparr>number = 500, timestamp = 6000\<rparr>))"
  by (simp add: findBlockByTimestamp_def validDate_def searchLoop_break mid_def)

end
